theory Spec2Isabelle
  imports Main "HOL-Library.Sublist"
begin

section \<open>The store of 1-BasicReduxApplication.js\<close>

subsection \<open>Values, errors and the code that uses a store\<close>

text \<open>
  An exception is a value of type \<open>error\<close>: \<open>TypeError\<close> is what the runtime raises when
  a value that is not a function is called or a property of \<open>undefined\<close> is read,
  \<open>Thrown\<close> is a \<^verbatim>\<open>throw\<close> of user code.
\<close>

datatype error = TypeError | Thrown string

text \<open>
  What \<^verbatim>\<open>subscribe\<close> receives is any value. A function is identified by its reference;
  any other value is identified by its reference (an object) or by its value (a
  primitive), so that \<^verbatim>\<open>!==\<close> is inequality of the model's values. (The number NaN,
  which is different from itself, is outside the model.)
\<close>

datatype listener = Function nat | NotCallable nat

text \<open>
  The closure that \<^verbatim>\<open>subscribe\<close> returns captures the variable \<^verbatim>\<open>listener\<close> of its call
  and nothing else of its own.
\<close>

datatype handle = Handle listener

text \<open>
  The trace records the calls that are observable from outside the store: every call of
  \<^verbatim>\<open>dispatch\<close>, with its action, and every call of a listener function.
\<close>

datatype 'a event = Dispatched 'a | Called nat

text \<open>
  Code that uses the store (the body of a listener, or a script such as the one at the
  end of the file) is a sequence of calls of the three methods; \<open>GetState\<close> continues
  with the state it has read, so the code may choose what it does next from it. A state
  is \<open>None\<close> where JavaScript has \<^verbatim>\<open>undefined\<close>. \<open>CallHandle\<close> calls a handle that an
  earlier \<open>Subscribe\<close> of the same listener has returned. An exception ends the code:
  it has no \<^verbatim>\<open>try\<close>. A reducer is a function of the state and the action that returns
  the next state or throws; it does not use the store.
\<close>

datatype ('s, 'a) prog =
    Return
  | Throw error
  | GetState "'s option \<Rightarrow> ('s, 'a) prog"
  | Dispatch 'a "('s, 'a) prog"
  | Subscribe listener "('s, 'a) prog"
  | CallHandle handle "('s, 'a) prog"

text \<open>The body of every function value, by reference.\<close>

type_synonym ('s, 'a) env = "nat \<Rightarrow> ('s, 'a) prog"

subsection \<open>createStore\<close>

text \<open>
  The closure variables of \<^verbatim>\<open>createStore\<close>: \<open>reducer\<close>, \<open>state\<close> and \<open>listeners\<close>. The
  variable \<open>listeners\<close> holds a reference to an array object; the array objects live in
  \<open>arrays\<close>, and \<open>fresh\<close> is the next unused reference. \<open>trace\<close> is the record of calls.
\<close>

record ('s, 'a) store =
  reducer :: "'s option \<Rightarrow> 'a \<Rightarrow> error + 's option"
  state :: "'s option"
  listeners :: nat
  arrays :: "nat \<Rightarrow> listener list"
  fresh :: nat
  trace :: "'a event list"

definition createStore :: "('s option \<Rightarrow> 'a \<Rightarrow> error + 's option) \<Rightarrow> ('s, 'a) store" where
  "createStore r =
     \<lparr>reducer = r, state = None, listeners = 0, arrays = (\<lambda>_. []), fresh = 1, trace = []\<rparr>"

definition getState :: "('s, 'a) store \<Rightarrow> 's option" where
  "getState w = state w"

text \<open>\<^verbatim>\<open>listeners.push(listener)\<close> changes the array object in place.\<close>

definition subscribe :: "listener \<Rightarrow> ('s, 'a) store \<Rightarrow> handle \<times> ('s, 'a) store" where
  "subscribe listener w =
     (Handle listener,
      w\<lparr>arrays := (arrays w)(listeners w := arrays w (listeners w) @ [listener])\<rparr>)"

text \<open>
  \<^verbatim>\<open>listeners = listeners.filter((l) => l !== listener)\<close> builds a new array object and
  binds the variable to it; the old array object is left as it is.
\<close>

fun call_handle :: "handle \<Rightarrow> ('s, 'a) store \<Rightarrow> ('s, 'a) store" where
  "call_handle (Handle listener) w =
     w\<lparr>arrays := (arrays w)(fresh w := filter (\<lambda>l. l \<noteq> listener) (arrays w (listeners w))),
       listeners := fresh w,
       fresh := Suc (fresh w)\<rparr>"

text \<open>The array that the variable \<open>listeners\<close> refers to.\<close>

definition registered :: "('s, 'a) store \<Rightarrow> listener list" where
  "registered w = arrays w (listeners w)"

text \<open>
  \<open>dispatch\<close>, the loop of \<^verbatim>\<open>Array.prototype.forEach\<close> and the execution of code that
  uses the store call each other. The first argument bounds the number of steps on every
  chain of calls (a call of \<open>dispatch\<close>, a turn of the loop, a statement of the code);
  \<open>None\<close> is the result of a run that needs more, as a run that never ends does for
  every bound.

  \<open>forEach n env obj k len\<close> is the loop of \<^verbatim>\<open>forEach\<close> on the array object \<open>obj\<close> at index
  \<open>k\<close>: \<open>len\<close> is the length read before the first callback, the element is read when its
  turn comes, and an index that the array does not have is skipped. The callback is
  \<^verbatim>\<open>(listener) => listener()\<close>.

  \<open>dispatch\<close> and \<open>forEach\<close> also return the listeners that the notification pass has
  called, in order. The value of a call of \<open>dispatch\<close> that returns is \<open>None\<close>
  (\<^verbatim>\<open>undefined\<close>): the body has no \<^verbatim>\<open>return\<close>.
\<close>

fun dispatch :: "nat \<Rightarrow> ('s, 'a) env \<Rightarrow> 'a \<Rightarrow> ('s, 'a) store \<Rightarrow>
      (listener list \<times> (error + 'a option) \<times> ('s, 'a) store) option"
  and forEach :: "nat \<Rightarrow> ('s, 'a) env \<Rightarrow> nat \<Rightarrow> nat \<Rightarrow> nat \<Rightarrow> ('s, 'a) store \<Rightarrow>
      (listener list \<times> (error + unit) \<times> ('s, 'a) store) option"
  and exec :: "nat \<Rightarrow> ('s, 'a) env \<Rightarrow> ('s, 'a) prog \<Rightarrow> ('s, 'a) store \<Rightarrow>
      ((error + unit) \<times> ('s, 'a) store) option"
where
  "dispatch 0 env action w = None"
| "dispatch (Suc n) env action w =
     (case reducer w (state w) action of
        Inl e \<Rightarrow> Some ([], Inl e, w\<lparr>trace := trace w @ [Dispatched action]\<rparr>)
      | Inr s \<Rightarrow>
          (let w1 = w\<lparr>state := s, trace := trace w @ [Dispatched action]\<rparr> in
           case forEach n env (listeners w1) 0 (length (arrays w1 (listeners w1))) w1 of
             None \<Rightarrow> None
           | Some (pass, Inl e, w2) \<Rightarrow> Some (pass, Inl e, w2)
           | Some (pass, Inr _, w2) \<Rightarrow> Some (pass, Inr None, w2)))"
| "forEach 0 env obj k len w = None"
| "forEach (Suc n) env obj k len w =
     (if k < len then
        (if k < length (arrays w obj) then
           (case arrays w obj ! k of
              NotCallable v \<Rightarrow> Some ([], Inl TypeError, w)
            | Function f \<Rightarrow>
                (case exec n env (env f) (w\<lparr>trace := trace w @ [Called f]\<rparr>) of
                   None \<Rightarrow> None
                 | Some (Inl e, w1) \<Rightarrow> Some ([Function f], Inl e, w1)
                 | Some (Inr _, w1) \<Rightarrow>
                     (case forEach n env obj (Suc k) len w1 of
                        None \<Rightarrow> None
                      | Some (pass, r, w2) \<Rightarrow> Some (Function f # pass, r, w2))))
         else forEach n env obj (Suc k) len w)
      else Some ([], Inr (), w))"
| "exec 0 env p w = None"
| "exec (Suc n) env Return w = Some (Inr (), w)"
| "exec (Suc n) env (Throw e) w = Some (Inl e, w)"
| "exec (Suc n) env (GetState c) w = exec n env (c (getState w)) w"
| "exec (Suc n) env (Dispatch action p) w =
     (case dispatch n env action w of
        None \<Rightarrow> None
      | Some (pass, Inl e, w1) \<Rightarrow> Some (Inl e, w1)
      | Some (pass, Inr _, w1) \<Rightarrow> exec n env p w1)"
| "exec (Suc n) env (Subscribe listener p) w = exec n env p (snd (subscribe listener w))"
| "exec (Suc n) env (CallHandle h p) w = exec n env p (call_handle h w)"

section \<open>The reducers of the application\<close>

text \<open>
  The objects of the application, with the fields and the types that the script at the
  end of the file gives them. An action always has its \<^verbatim>\<open>type\<close>; the fields \<^verbatim>\<open>todo\<close>,
  \<^verbatim>\<open>goal\<close> and \<^verbatim>\<open>id\<close> are \<open>None\<close> (\<^verbatim>\<open>undefined\<close>) in an action that does not have them.
  An element of a list is \<open>None\<close> where the array holds \<^verbatim>\<open>undefined\<close>, as it does after
  an \<^verbatim>\<open>ADD_TODO\<close> action without a \<^verbatim>\<open>todo\<close>.
\<close>

record todo =
  todo_id :: int
  todo_name :: string
  complete :: bool

record goal =
  goal_id :: int
  goal_name :: string

record action =
  act_type :: string
  act_todo :: "todo option"
  act_goal :: "goal option"
  act_id :: "int option"

record app_state =
  todos_of :: "todo option list option"
  goals_of :: "goal option list option"

text \<open>
  \<^verbatim>\<open>Array.prototype.filter\<close> and \<^verbatim>\<open>Array.prototype.map\<close> with a callback that may throw:
  the elements are visited in order and the first exception ends the call.
\<close>

fun array_filter :: "('x \<Rightarrow> error + bool) \<Rightarrow> 'x list \<Rightarrow> error + 'x list" where
  "array_filter f [] = Inr []"
| "array_filter f (x # xs) =
     (case f x of
        Inl e \<Rightarrow> Inl e
      | Inr b \<Rightarrow>
          (case array_filter f xs of
             Inl e \<Rightarrow> Inl e
           | Inr ys \<Rightarrow> Inr (if b then x # ys else ys)))"

fun array_map :: "('x \<Rightarrow> error + 'y) \<Rightarrow> 'x list \<Rightarrow> error + 'y list" where
  "array_map f [] = Inr []"
| "array_map f (x # xs) =
     (case f x of
        Inl e \<Rightarrow> Inl e
      | Inr y \<Rightarrow>
          (case array_map f xs of
             Inl e \<Rightarrow> Inl e
           | Inr ys \<Rightarrow> Inr (y # ys)))"

text \<open>
  The parameter default \<^verbatim>\<open>state = []\<close> replaces \<^verbatim>\<open>undefined\<close> only. Reading \<^verbatim>\<open>todo.id\<close>
  of an element that is \<^verbatim>\<open>undefined\<close> raises a TypeError.
\<close>

definition todos :: "todo option list option \<Rightarrow> action \<Rightarrow> error + todo option list" where
  "todos state0 action =
     (let state = (case state0 of None \<Rightarrow> [] | Some xs \<Rightarrow> xs) in
      if act_type action = ''ADD_TODO'' then Inr (state @ [act_todo action])
      else if act_type action = ''REMOVE_TODO'' then
        array_filter
          (\<lambda>todo. case todo of
                     None \<Rightarrow> Inl TypeError
                   | Some t \<Rightarrow> Inr (Some (todo_id t) \<noteq> act_id action))
          state
      else if act_type action = ''TOGGLE_TODO'' then
        array_map
          (\<lambda>todo. case todo of
                     None \<Rightarrow> Inl TypeError
                   | Some t \<Rightarrow>
                       Inr (if Some (todo_id t) \<noteq> act_id action then Some t
                            else Some (t\<lparr>complete := \<not> complete t\<rparr>)))
          state
      else Inr state)"

definition goals :: "goal option list option \<Rightarrow> action \<Rightarrow> error + goal option list" where
  "goals state0 action =
     (let state = (case state0 of None \<Rightarrow> [] | Some xs \<Rightarrow> xs) in
      if act_type action = ''ADD_GOAL'' then Inr (state @ [act_goal action])
      else if act_type action = ''REMOVE_GOAL'' then
        array_filter
          (\<lambda>goal. case goal of
                     None \<Rightarrow> Inl TypeError
                   | Some g \<Rightarrow> Inr (Some (goal_id g) \<noteq> act_id action))
          state
      else Inr state)"

text \<open>
  The root reducer. The parameter default \<^verbatim>\<open>state = {}\<close> is the object without fields.
  \<open>app_calls\<close> returns, with the result, the calls of the slice reducers that the body
  has made, in order: the object literal evaluates \<^verbatim>\<open>todos(...)\<close> first and an exception
  there ends the call.
\<close>

datatype slice_call =
    Call_todos "todo option list option" action
  | Call_goals "goal option list option" action

definition app_calls :: "app_state option \<Rightarrow> action \<Rightarrow> slice_call list \<times> (error + app_state option)" where
  "app_calls state0 action =
     (let state = (case state0 of None \<Rightarrow> \<lparr>todos_of = None, goals_of = None\<rparr> | Some s \<Rightarrow> s) in
      case todos (todos_of state) action of
        Inl e \<Rightarrow> ([Call_todos (todos_of state) action], Inl e)
      | Inr t \<Rightarrow>
          (case goals (goals_of state) action of
             Inl e \<Rightarrow>
               ([Call_todos (todos_of state) action, Call_goals (goals_of state) action], Inl e)
           | Inr g \<Rightarrow>
               ([Call_todos (todos_of state) action, Call_goals (goals_of state) action],
                Inr (Some \<lparr>todos_of = Some t, goals_of = Some g\<rparr>))))"

definition app :: "app_state option \<Rightarrow> action \<Rightarrow> error + app_state option" where
  "app state0 action = snd (app_calls state0 action)"

section \<open>Auxiliary notions\<close>

text \<open>
  A store is well formed when the variable \<open>listeners\<close> refers to an array object that
  has been allocated.
\<close>

definition wf_store :: "('s, 'a) store \<Rightarrow> bool" where
  "wf_store w \<longleftrightarrow> listeners w < fresh w"

text \<open>
  From \<open>w\<close> to \<open>w'\<close> array objects are only allocated and appended to: no allocated
  array object loses or changes an element.
\<close>

definition grows :: "('s, 'a) store \<Rightarrow> ('s, 'a) store \<Rightarrow> bool" where
  "grows w w' \<longleftrightarrow>
     fresh w \<le> fresh w' \<and>
     (listeners w < fresh w \<longrightarrow> listeners w' < fresh w') \<and>
     (\<forall>a<fresh w. prefix (arrays w a) (arrays w' a))"



text \<open>The events that a run from \<open>w\<close> to \<open>w'\<close> has added to the trace.\<close>

definition events_since :: "('s, 'a) store \<Rightarrow> ('s, 'a) store \<Rightarrow> 'a event list" where
  "events_since w w' = drop (length (trace w)) (trace w')"


text \<open>Code that never calls \<open>subscribe\<close> with the listener \<open>l\<close>.\<close>

primrec never_subscribes :: "listener \<Rightarrow> ('s, 'a) prog \<Rightarrow> bool" where
  "never_subscribes l Return = True"
| "never_subscribes l (Throw e) = True"
| "never_subscribes l (GetState c) = (\<forall>s. never_subscribes l (c s))"
| "never_subscribes l (Dispatch a p) = never_subscribes l p"
| "never_subscribes l (Subscribe l' p) = (l' \<noteq> l \<and> never_subscribes l p)"
| "never_subscribes l (CallHandle h p) = never_subscribes l p"

text \<open>
  No array object allocated from \<open>base\<close> on holds \<open>l\<close>, and the variable \<open>listeners\<close>
  refers to one of them.
\<close>

definition clean :: "listener \<Rightarrow> nat \<Rightarrow> ('s, 'a) store \<Rightarrow> bool" where
  "clean l base w \<longleftrightarrow>
     base \<le> listeners w \<and> listeners w < fresh w \<and>
     (\<forall>a. base \<le> a \<and> a < fresh w \<longrightarrow> l \<notin> set (arrays w a))"

text \<open>
  From \<open>w\<close> to \<open>w'\<close> the function \<open>l\<close> has not been called, and \<open>w'\<close> is again clean.
\<close>

definition quiet :: "listener \<Rightarrow> nat \<Rightarrow> ('s, 'a) store \<Rightarrow> ('s, 'a) store \<Rightarrow> bool" where
  "quiet l base w w' \<longleftrightarrow>
     clean l base w' \<and> fresh w \<le> fresh w' \<and>
     (\<exists>t. trace w' = trace w @ t \<and> (\<forall>f. l = Function f \<longrightarrow> Called f \<notin> set t))"

text \<open>A list in which no element is \<^verbatim>\<open>undefined\<close> (or no list at all).\<close>

definition defined_entries :: "'x option list option \<Rightarrow> bool" where
  "defined_entries xs \<longleftrightarrow> (case xs of None \<Rightarrow> True | Some ys \<Rightarrow> list_all (\<lambda>x. x \<noteq> None) ys)"

section \<open>The script of the file and other concrete runs\<close>



definition with_id :: "string \<Rightarrow> int \<Rightarrow> action" where
  "with_id t i = \<lparr>act_type = t, act_todo = None, act_goal = None, act_id = Some i\<rparr>"


text \<open>
  The script: it subscribes one listener, which reads the state (and prints it), and
  dispatches the eight actions.
\<close>

definition script_env :: "(app_state, action) env" where
  "script_env f = GetState (\<lambda>s. Return)"


text \<open>An action whose type no reducer knows, and an \<^verbatim>\<open>ADD_TODO\<close> action without a todo.\<close>

definition unknown_action :: action where
  "unknown_action = \<lparr>act_type = ''UNKNOWN'', act_todo = None, act_goal = None, act_id = None\<rparr>"

definition add_nothing :: action where
  "add_nothing = \<lparr>act_type = ''ADD_TODO'', act_todo = None, act_goal = None, act_id = None\<rparr>"

text \<open>
  A store of the application after \<open>add_nothing\<close> has been dispatched, with one listener:
  its list of todos holds \<^verbatim>\<open>undefined\<close>.
\<close>

definition holed_store :: "(app_state, action) store" where
  "holed_store =
     (snd (subscribe (Function 0) (createStore app)))
       \<lparr>state := Some \<lparr>todos_of = Some [None], goals_of = Some []\<rparr>,
        trace := [Dispatched add_nothing, Called 0]\<rparr>"



text \<open>
  A listener is subscribed, its handle is called, and the same listener is subscribed
  again: \<open>stale_handle\<close> is the handle of the first subscription.
\<close>

definition stale_handle :: handle where
  "stale_handle = fst (subscribe (Function 0) (createStore app))"

definition resubscribed :: "(app_state, action) store" where
  "resubscribed =
     snd (subscribe (Function 0)
       (call_handle stale_handle (snd (subscribe (Function 0) (createStore app)))))"

text \<open>The state after the script.\<close>

definition final_state :: app_state where
  "final_state =
     \<lparr>todos_of = Some [Some \<lparr>todo_id = 0, todo_name = ''Walk the dog'', complete = True\<rparr>,
                       Some \<lparr>todo_id = 2, todo_name = ''Go to the gym'', complete = True\<rparr>],
      goals_of = Some [Some \<lparr>goal_id = 1, goal_name = ''Lose 20 pounds''\<rparr>]\<rparr>"

text \<open>The same listener is subscribed twice.\<close>

definition twice_store :: "(app_state, action) store" where
  "twice_store = snd (subscribe (Function 0) (snd (subscribe (Function 0) (createStore app))))"


section \<open>Properties\<close>

subsection \<open>Relations that every run preserves\<close>

text \<open>
  A relation between stores that is reflexive and transitive and holds across each single
  change of the store (a failed call of the reducer, the assignment of the new state, the
  start of a listener, \<open>subscribe\<close>, a call of a handle) holds between the store
  before and the store after every run of \<open>dispatch\<close>, \<open>forEach\<close> and \<open>exec\<close>.
\<close>

lemma run_rel:
  fixes R :: "('s, 'a) store \<Rightarrow> ('s, 'a) store \<Rightarrow> bool"
  assumes refl: "\<And>w. R w w"
    and trans: "\<And>w1 w2 w3. R w1 w2 \<Longrightarrow> R w2 w3 \<Longrightarrow> R w1 w3"
    and fail: "\<And>w a e. reducer w (state w) a = Inl e \<Longrightarrow> R w (w\<lparr>trace := trace w @ [Dispatched a]\<rparr>)"
    and assign: "\<And>w a s. reducer w (state w) a = Inr s \<Longrightarrow>
                   R w (w\<lparr>state := s, trace := trace w @ [Dispatched a]\<rparr>)"
    and called: "\<And>w f. R w (w\<lparr>trace := trace w @ [Called f]\<rparr>)"
    and sub: "\<And>w l. R w (snd (subscribe l w))"
    and unsub: "\<And>w h. R w (call_handle h w)"
  shows "(\<forall>a w p r w'. dispatch n env a w = Some (p, r, w') \<longrightarrow> R w w') \<and>
         (\<forall>obj k len w p r w'. forEach n env obj k len w = Some (p, r, w') \<longrightarrow> R w w') \<and>
         (\<forall>p w r w'. exec n env p w = Some (r, w') \<longrightarrow> R w w')"
proof (induction n)
  case 0
  show ?case by simp
next
  case (Suc n)
  have D: "\<And>a w p r w'. dispatch n env a w = Some (p, r, w') \<Longrightarrow> R w w'"
    and F: "\<And>obj k len w p r w'. forEach n env obj k len w = Some (p, r, w') \<Longrightarrow> R w w'"
    and E: "\<And>p w r w'. exec n env p w = Some (r, w') \<Longrightarrow> R w w'"
    using Suc by blast+
  have d: "R w w'" if "dispatch (Suc n) env a w = Some (p, r, w')" for a w p r w'
  proof (cases "reducer w (state w) a")
    case (Inl e)
    with that fail [OF Inl] show ?thesis by auto
  next
    case (Inr s)
    let ?w1 = "w\<lparr>state := s, trace := trace w @ [Dispatched a]\<rparr>"
    from that Inr obtain p1 r1 where
      "forEach n env (listeners ?w1) 0 (length (arrays ?w1 (listeners ?w1))) ?w1 = Some (p1, r1, w')"
      by (auto simp: Let_def split: option.splits sum.splits)
    from F [OF this] assign [OF Inr] show ?thesis by (rule trans [rotated])
  qed
  have f: "R w w'" if "forEach (Suc n) env obj k len w = Some (p, r, w')" for obj k len w p r w'
  proof (cases "k < len")
    case False
    with that refl show ?thesis by auto
  next
    case True
    show ?thesis
    proof (cases "k < length (arrays w obj)")
      case False
      with that True F show ?thesis by auto
    next
      case inb: True
      show ?thesis
      proof (cases "arrays w obj ! k")
        case (NotCallable v)
        with that True inb refl show ?thesis by auto
      next
        case (Function g)
        let ?w0 = "w\<lparr>trace := trace w @ [Called g]\<rparr>"
        from that True inb Function obtain r1 w1 where
          e: "exec n env (env g) ?w0 = Some (r1, w1)"
          by (auto split: option.splits)
        have 1: "R w w1" using called [of w g] E [OF e] by (rule trans)
        show ?thesis
        proof (cases r1)
          case (Inl e1)
          with that True inb Function e have "w' = w1" by auto
          with 1 show ?thesis by simp
        next
          case (Inr u)
          with that True inb Function e obtain p2 r2 where
            "forEach n env obj (Suc k) len w1 = Some (p2, r2, w')"
            by (auto split: option.splits)
          from 1 F [OF this] show ?thesis by (rule trans)
        qed
      qed
    qed
  qed
  have e: "R w w'" if "exec (Suc n) env p w = Some (r, w')" for p w r w'
  proof (cases p)
    case Return
    with that refl show ?thesis by auto
  next
    case (Throw x)
    with that refl show ?thesis by auto
  next
    case (GetState c)
    with that E show ?thesis by auto
  next
    case (Dispatch a q)
    with that obtain p1 r1 w1 where d1: "dispatch n env a w = Some (p1, r1, w1)"
      by (auto split: option.splits)
    show ?thesis
    proof (cases r1)
      case (Inl e1)
      with that Dispatch d1 have "w' = w1" by auto
      with D [OF d1] show ?thesis by simp
    next
      case (Inr u)
      with that Dispatch d1 have "exec n env q w1 = Some (r, w')" by auto
      from D [OF d1] E [OF this] show ?thesis by (rule trans)
    qed
  next
    case (Subscribe l q)
    with that have "exec n env q (snd (subscribe l w)) = Some (r, w')" by auto
    from sub [of w l] E [OF this] show ?thesis by (rule trans)
  next
    case (CallHandle h q)
    with that have "exec n env q (call_handle h w) = Some (r, w')" by auto
    from unsub [of w h] E [OF this] show ?thesis by (rule trans)
  qed
  from d f e show ?case by blast
qed

subsection \<open>Array objects only grow\<close>

lemma grows_refl: "grows w w"
  by (simp add: grows_def)

lemma grows_trans: 
  assumes "grows w1 w2" "grows w2 w3" shows "grows w1 w3"
proof -
  have "prefix (arrays w1 a) (arrays w3 a)" if "a < fresh w1" for a
  proof -
    from that assms have "prefix (arrays w1 a) (arrays w2 a)" "prefix (arrays w2 a) (arrays w3 a)"
      by (auto simp: grows_def)
    then show ?thesis by (rule prefix_order.trans)
  qed
  with assms show ?thesis by (auto simp: grows_def)
qed

lemma grows_subscribe: "grows w (snd (subscribe l w))"
  by (simp add: grows_def subscribe_def)

lemma grows_call_handle: "grows w (call_handle h w)"
  by (cases h) (simp add: grows_def)

lemma grows_fail: "grows w (w\<lparr>trace := t\<rparr>)"
  by (simp add: grows_def)

lemma grows_assign: "grows w (w\<lparr>state := s, trace := t\<rparr>)"
  by (simp add: grows_def)

lemma grows_run:
  "(\<forall>a w p r w'. dispatch n env a w = Some (p, r, w') \<longrightarrow> grows w w') \<and>
         (\<forall>obj k len w p r w'. forEach n env obj k len w = Some (p, r, w') \<longrightarrow> grows w w') \<and>
         (\<forall>p w r w'. exec n env p w = Some (r, w') \<longrightarrow> grows w w')"
  by (rule run_rel)
    (rule grows_refl grows_fail grows_assign grows_subscribe grows_call_handle
      | erule grows_trans, assumption)+

lemma grows_exec: "exec n env p w = Some (r, w') \<Longrightarrow> grows w w'"
  using grows_run by blast

lemma forEach_pass:
  "forEach n env obj k len w = Some (p, r, w') \<Longrightarrow> obj < fresh w \<Longrightarrow>
   len \<le> length (arrays w obj) \<Longrightarrow>
   prefix p (drop k (take len (arrays w obj))) \<and>
   ((\<exists>u. r = Inr u) \<longrightarrow> p = drop k (take len (arrays w obj)))"
proof (induction n arbitrary: k w p r w')
  case 0
  then show ?case by simp
next
  case (Suc n)
  let ?xs = "arrays w obj"
  show ?case
  proof (cases "k < len")
    case False
    with Suc.prems show ?thesis by auto
  next
    case True
    with Suc.prems have inb: "k < length ?xs" by simp
    have dr: "drop k (take len ?xs) = ?xs ! k # drop (Suc k) (take len ?xs)"
      using Cons_nth_drop_Suc [of k "take len ?xs"] True inb by simp
    show ?thesis
    proof (cases "?xs ! k")
      case (NotCallable v)
      with Suc.prems True inb show ?thesis by auto
    next
      case (Function g)
      let ?w0 = "w\<lparr>trace := trace w @ [Called g]\<rparr>"
      from Suc.prems(1) True inb Function obtain r1 w1 where
        e: "exec n env (env g) ?w0 = Some (r1, w1)"
        by (auto split: option.splits)
      from grows_exec [OF e] have g: "grows ?w0 w1" .
      show ?thesis
      proof (cases r1)
        case (Inl e1)
        with Suc.prems(1) True inb Function e have "p = [Function g]" "r = Inl e1" by auto
        with dr Function show ?thesis by simp
      next
        case (Inr u)
        with Suc.prems(1) True inb Function e obtain p2 where
          f2: "forEach n env obj (Suc k) len w1 = Some (p2, r, w')" and p: "p = Function g # p2"
          by (auto split: option.splits)
        from g Suc.prems(2) have fr: "obj < fresh w1" and pre: "prefix ?xs (arrays w1 obj)"
          by (auto simp: grows_def)
        from pre Suc.prems(3) have tk: "take len (arrays w1 obj) = take len ?xs"
          by (auto simp: prefix_def)
        from pre Suc.prems(3) have "len \<le> length (arrays w1 obj)"
          by (auto simp: prefix_def)
        from Suc.IH [OF f2 fr this] tk p dr Function show ?thesis by simp
      qed
    qed
  qed
qed

lemma createStore_simps:
  "reducer (createStore r) = r" "state (createStore r) = None" "listeners (createStore r) = 0"
  "arrays (createStore r) a = []" "fresh (createStore r) = 1" "trace (createStore r) = []"
  by (simp_all add: createStore_def)

lemma dispatch_pass:
  assumes "wf_store w" and "dispatch n env action w = Some (pass, r, w')"
  shows "prefix pass (registered w) \<and> ((\<exists>v. r = Inr v) \<longrightarrow> pass = registered w)"
proof (cases n)
  case 0
  with assms show ?thesis by simp
next
  case (Suc m)
  show ?thesis
  proof (cases "reducer w (state w) action")
    case (Inl e)
    with assms Suc show ?thesis by auto
  next
    case (Inr s)
    let ?w1 = "w\<lparr>state := s, trace := trace w @ [Dispatched action]\<rparr>"
    from assms(2) Suc Inr obtain r1 where
      f: "forEach m env (listeners w) 0 (length (arrays w (listeners w))) ?w1 = Some (pass, r1, w')"
      and r: "(\<exists>v. r = Inr v) \<longleftrightarrow> (\<exists>u. r1 = Inr u)"
      by (auto simp: Let_def split: option.splits sum.splits)
    from assms(1) have "listeners w < fresh ?w1" by (simp add: wf_store_def)
    from forEach_pass [OF f this] r show ?thesis by (simp add: registered_def)
  qed
qed

text \<open>Every store that \<open>createStore\<close> builds, and every store a run leads to, is well formed.\<close>

lemma wf_store_createStore: "wf_store (createStore r)"
  by (simp add: wf_store_def createStore_def)

lemma wf_store_exec: "wf_store w \<Longrightarrow> exec n env p w = Some (r, w') \<Longrightarrow> wf_store w'"
  using grows_exec [of n env p w r w'] by (simp add: grows_def wf_store_def)

subsection \<open>The notification pass\<close>



subsection \<open>The state is a fold of the reducer\<close>


















subsection \<open>The state of a new store\<close>

lemma dispatch_no_listener:
  assumes "registered w = []" and "reducer w (state w) a = Inr s"
  shows "dispatch (Suc (Suc n)) env a w =
           Some ([], Inr None, w\<lparr>state := s, trace := trace w @ [Dispatched a]\<rparr>)"
  using assms by (simp add: registered_def)

text \<open>
  Claim C2 does not hold: \<open>createStore\<close> does not call the reducer. Before the first
  dispatch \<open>getState\<close> of the store of the application returns \<^verbatim>\<open>undefined\<close>, which is
  not the state that the reducer returns for the undefined state.
\<close>

theorem createStore_default_counterexample:
  "getState (createStore app) = None \<and>
   app None unknown_action = Inr (Some \<lparr>todos_of = Some [], goals_of = Some []\<rparr>) \<and>
   Inr (getState (createStore app)) \<noteq> app None unknown_action"
  by (simp add: getState_def createStore_def app_def app_calls_def todos_def goals_def
      unknown_action_def)

text \<open>
  Claim C2, amended. A store built by \<open>createStore\<close> has the state \<^verbatim>\<open>undefined\<close> and
  no call made: \<open>getState\<close> before any dispatch returns \<^verbatim>\<open>undefined\<close>. The first
  dispatch calls the reducer with the undefined state, and it is the state that the
  reducer returns there that \<open>getState\<close> returns from then on.
\<close>

theorem createStore_state_undefined:
  "getState (createStore r) = None \<and> trace (createStore r) = [] \<and>
   (r None a = Inr s \<longrightarrow>
      (\<exists>w'. dispatch (Suc (Suc n)) env a (createStore r) = Some ([], Inr None, w') \<and>
            getState w' = s \<and> trace w' = [Dispatched a]))"
  by (simp add: getState_def createStore_def)

theorem createStore_state_undefined_witness:
  "getState (createStore app) = None \<and>
   app None unknown_action = Inr (Some \<lparr>todos_of = Some [], goals_of = Some []\<rparr>) \<and>
   (\<exists>w'. dispatch (Suc (Suc 0)) script_env unknown_action (createStore app) =
            Some ([], Inr None, w') \<and>
          getState w' = Some \<lparr>todos_of = Some [], goals_of = Some []\<rparr>)"
proof -
  have a: "app None unknown_action = Inr (Some \<lparr>todos_of = Some [], goals_of = Some []\<rparr>)"
    by (simp add: app_def app_calls_def todos_def goals_def unknown_action_def)
  from createStore_state_undefined
    [of app unknown_action "Some \<lparr>todos_of = Some [], goals_of = Some []\<rparr>" 0 script_env] a
  show ?thesis by blast
qed

subsection \<open>A reducer that throws\<close>

lemma holed_store_reached:
  "map_option (\<lambda>(pass, r, w). (pass, r, getState w, registered w, trace w))
     (dispatch (Suc (Suc (Suc (Suc 0)))) script_env add_nothing
        (snd (subscribe (Function 0) (createStore app)))) =
   Some ([Function 0], Inr None, getState holed_store, registered holed_store, trace holed_store)"
  by (simp add: holed_store_def subscribe_def createStore_def script_env_def getState_def
      registered_def app_def app_calls_def todos_def goals_def add_nothing_def)

text \<open>
  Claim C3. When the reducer throws for the state of the store and the action, the call
  of \<open>dispatch\<close> ends with that exception, and so does the code that has called it;
  \<open>getState\<close> returns what it returned before, the listeners registered are the same,
  and the only call recorded is the call of \<open>dispatch\<close>: no listener has been called.
\<close>

theorem dispatch_reducer_throws:
  assumes "reducer w (state w) action = Inl e"
  shows "\<exists>w'. dispatch (Suc n) env action w = Some ([], Inl e, w') \<and>
              exec (Suc (Suc n)) env (Dispatch action p) w = Some (Inl e, w') \<and>
              getState w' = getState w \<and> registered w' = registered w \<and>
              trace w' = trace w @ [Dispatched action]"
  using assms by (simp add: getState_def registered_def)

theorem dispatch_reducer_throws_witness:
  "reducer holed_store (state holed_store) (with_id ''REMOVE_TODO'' 0) = Inl TypeError \<and>
   registered holed_store = [Function 0] \<and>
   (\<exists>w'. dispatch (Suc 0) script_env (with_id ''REMOVE_TODO'' 0) holed_store =
            Some ([], Inl TypeError, w') \<and>
          getState w' = getState holed_store \<and>
          trace w' = trace holed_store @ [Dispatched (with_id ''REMOVE_TODO'' 0)])"
proof -
  have r: "reducer holed_store (state holed_store) (with_id ''REMOVE_TODO'' 0) = Inl TypeError"
    by (simp add: holed_store_def subscribe_def createStore_def app_def app_calls_def todos_def
        with_id_def)
  have l: "registered holed_store = [Function 0]"
    by (simp add: holed_store_def subscribe_def createStore_def registered_def)
  from dispatch_reducer_throws [OF r, of 0 script_env Return] r l show ?thesis by blast
qed

subsection \<open>The value of dispatch\<close>

text \<open>
  Claim C10. A call of \<open>dispatch\<close> that returns has the value \<^verbatim>\<open>undefined\<close>, for
  every action; it does not return the action.
\<close>

theorem dispatch_returns_undefined:
  assumes "dispatch n env action w = Some (pass, Inr v, w')"
  shows "v = None"
proof (cases n)
  case 0
  with assms show ?thesis by simp
next
  case (Suc m)
  with assms show ?thesis
    by (auto simp: Let_def split: sum.splits option.splits)
qed

theorem dispatch_returns_undefined_witness:
  "\<exists>v w'. dispatch (Suc (Suc 0)) script_env unknown_action (createStore app) =
            Some ([], Inr v, w') \<and> v = None"
proof -
  have "app None unknown_action = Inr (Some \<lparr>todos_of = Some [], goals_of = Some []\<rparr>)"
    by (simp add: app_def app_calls_def todos_def goals_def unknown_action_def)
  then obtain w' where
    d: "dispatch (Suc (Suc 0)) script_env unknown_action (createStore app) = Some ([], Inr None, w')"
    by (simp add: createStore_def)
  from dispatch_returns_undefined [OF d] d show ?thesis by blast
qed

subsection \<open>The root reducer\<close>

lemma array_filter_returns:
  "list_all (\<lambda>x. \<exists>b. f x = Inr b) xs \<Longrightarrow> array_filter f xs = Inr (filter (\<lambda>x. f x = Inr True) xs)"
  by (induction xs) auto

lemma array_map_returns:
  "list_all (\<lambda>x. \<exists>y. f x = Inr y) xs \<Longrightarrow> \<exists>ys. array_map f xs = Inr ys"
  by (induction xs) auto

lemma todos_returns:
  assumes "defined_entries xs"
  shows "\<exists>t. todos xs action = Inr t"
proof -
  define ys where "ys = (case xs of None \<Rightarrow> [] | Some zs \<Rightarrow> zs)"
  with assms have d: "list_all (\<lambda>x. x \<noteq> None) ys"
    by (auto simp: defined_entries_def split: option.splits)
  let ?f = "\<lambda>todo. case todo of None \<Rightarrow> Inl TypeError
                | Some t \<Rightarrow> Inr (Some (todo_id t) \<noteq> act_id action)"
  let ?g = "\<lambda>todo. case todo of None \<Rightarrow> Inl TypeError
                | Some t \<Rightarrow> Inr (if Some (todo_id t) \<noteq> act_id action then Some t
                            else Some (t\<lparr>complete := \<not> complete t\<rparr>))"
  from d have "list_all (\<lambda>x. \<exists>b. ?f x = Inr b) ys"
    by (induction ys) auto
  then have 1: "\<exists>t. array_filter ?f ys = Inr t" by (simp add: array_filter_returns)
  from d have "list_all (\<lambda>x. \<exists>b. ?g x = Inr b) ys"
    by (induction ys) auto
  then have 2: "\<exists>t. array_map ?g ys = Inr t" by (rule array_map_returns)
  from 1 2 show ?thesis
    unfolding todos_def ys_def [symmetric] Let_def by simp
qed

lemma goals_returns:
  assumes "defined_entries xs"
  shows "\<exists>g. goals xs action = Inr g"
proof -
  define ys where "ys = (case xs of None \<Rightarrow> [] | Some zs \<Rightarrow> zs)"
  with assms have d: "list_all (\<lambda>x. x \<noteq> None) ys"
    by (auto simp: defined_entries_def split: option.splits)
  let ?f = "\<lambda>goal. case goal of None \<Rightarrow> Inl TypeError
                | Some g \<Rightarrow> Inr (Some (goal_id g) \<noteq> act_id action)"
  from d have "list_all (\<lambda>x. \<exists>b. ?f x = Inr b) ys"
    by (induction ys) auto
  then have 1: "\<exists>t. array_filter ?f ys = Inr t" by (simp add: array_filter_returns)
  from 1 show ?thesis
    unfolding goals_def ys_def [symmetric] Let_def by simp
qed



text \<open>
  Claim C9 does not hold for the undefined state, which is the state of every store
  before its first dispatch: for an action that no reducer knows, \<open>todos\<close> returns the
  empty list and \<open>app\<close> returns the composite of two empty lists.
\<close>

theorem unknown_action_counterexample:
  "act_type unknown_action = ''UNKNOWN'' \<and>
   todos None unknown_action = Inr [] \<and>
   app None unknown_action = Inr (Some \<lparr>todos_of = Some [], goals_of = Some []\<rparr>) \<and>
   app None unknown_action \<noteq> Inr None"
  by (simp add: app_def app_calls_def todos_def goals_def unknown_action_def)

text \<open>
  Claim C9, amended. For every action whose type neither slice reducer knows, a slice
  reducer returns a defined slice unchanged and the empty list for an undefined slice,
  and the root reducer returns a composite equal to its input when the input has both
  slices defined, and the composite of two empty lists for the undefined state.
\<close>

theorem unknown_action_is_identity:
  assumes "act_type action \<notin> {''ADD_TODO'', ''REMOVE_TODO'', ''TOGGLE_TODO''}"
    and "act_type action \<notin> {''ADD_GOAL'', ''REMOVE_GOAL''}"
  shows "todos xs action = Inr (case xs of None \<Rightarrow> [] | Some l \<Rightarrow> l) \<and>
         goals ys action = Inr (case ys of None \<Rightarrow> [] | Some l \<Rightarrow> l) \<and>
         app (Some \<lparr>todos_of = Some xl, goals_of = Some yl\<rparr>) action =
           Inr (Some \<lparr>todos_of = Some xl, goals_of = Some yl\<rparr>) \<and>
         app None action = Inr (Some \<lparr>todos_of = Some [], goals_of = Some []\<rparr>)"
  using assms by (simp add: app_def app_calls_def todos_def goals_def)

theorem unknown_action_is_identity_witness:
  "todos (todos_of final_state) unknown_action =
     Inr [Some \<lparr>todo_id = 0, todo_name = ''Walk the dog'', complete = True\<rparr>,
          Some \<lparr>todo_id = 2, todo_name = ''Go to the gym'', complete = True\<rparr>] \<and>
   app (Some final_state) unknown_action = Inr (Some final_state)"
proof -
  have 1: "act_type unknown_action \<notin> {''ADD_TODO'', ''REMOVE_TODO'', ''TOGGLE_TODO''}"
    and 2: "act_type unknown_action \<notin> {''ADD_GOAL'', ''REMOVE_GOAL''}"
    by (simp_all add: unknown_action_def)
  from unknown_action_is_identity [OF 1 2, of "todos_of final_state" "goals_of final_state"
      "[Some \<lparr>todo_id = 0, todo_name = ''Walk the dog'', complete = True\<rparr>,
        Some \<lparr>todo_id = 2, todo_name = ''Go to the gym'', complete = True\<rparr>]"
      "[Some \<lparr>goal_id = 1, goal_name = ''Lose 20 pounds''\<rparr>]"]
  show ?thesis by (simp add: final_state_def)
qed

subsection \<open>Handles\<close>

lemma registered_subscribe: "registered (snd (subscribe l w)) = registered w @ [l]"
  by (simp add: registered_def subscribe_def)

lemma registered_call_handle:
  "registered (call_handle (Handle l) w) = filter (\<lambda>x. x \<noteq> l) (registered w)"
  by (simp add: registered_def)

text \<open>
  Claim C7 does not hold: a second call of a handle is not always without effect. After
  the listener of a handle that has been called is subscribed again, a second call of
  that handle removes the new registration.
\<close>

theorem stale_handle_counterexample:
  "stale_handle = Handle (Function 0) \<and>
   registered resubscribed = [Function 0] \<and>
   registered (call_handle stale_handle resubscribed) = [] \<and>
   registered (call_handle stale_handle resubscribed) \<noteq> registered resubscribed"
  by (simp add: stale_handle_def resubscribed_def subscribe_def createStore_def registered_def)

text \<open>
  Claim C7, amended. Every call of a handle returns without an exception, leaves the
  state as it is and removes the registrations of its listener that the array holds at
  the time of the call; so a call that follows another call of the same handle, with no
  \<open>subscribe\<close> of that listener in between, leaves the registered listeners as they are.
\<close>

theorem handle_called_again:
  "registered (call_handle (Handle l) w) = filter (\<lambda>x. x \<noteq> l) (registered w) \<and>
   registered (call_handle (Handle l) (call_handle (Handle l) w)) =
     registered (call_handle (Handle l) w) \<and>
   getState (call_handle (Handle l) w) = getState w \<and>
   exec (Suc (Suc (Suc n))) env (CallHandle (Handle l) (CallHandle (Handle l) Return)) w =
     Some (Inr (), call_handle (Handle l) (call_handle (Handle l) w))"
  by (simp add: registered_def getState_def)

theorem handle_called_again_witness:
  "registered (call_handle stale_handle (call_handle stale_handle resubscribed)) = [] \<and>
   registered (call_handle stale_handle resubscribed) = []"
proof -
  have h: "stale_handle = Handle (Function 0)"
    by (simp add: stale_handle_def subscribe_def)
  have "registered resubscribed = [Function 0]"
    by (simp add: h resubscribed_def subscribe_def createStore_def registered_def)
  with handle_called_again [of "Function 0" resubscribed 0 script_env] h show ?thesis
    by simp
qed




subsection \<open>A listener that has been removed is not called\<close>

lemma quiet_refl: "clean l base w \<Longrightarrow> quiet l base w w"
  by (simp add: quiet_def)

lemma quiet_trans:
  assumes "quiet l base w1 w2" and "quiet l base w2 w3"
  shows "quiet l base w1 w3"
proof -
  from assms(1) obtain t1 where t1: "trace w2 = trace w1 @ t1"
    and n1: "\<And>f. l = Function f \<Longrightarrow> Called f \<notin> set t1"
    by (auto simp: quiet_def)
  from assms(2) obtain t2 where t2: "trace w3 = trace w2 @ t2"
    and n2: "\<And>f. l = Function f \<Longrightarrow> Called f \<notin> set t2"
    by (auto simp: quiet_def)
  from t1 t2 have "trace w3 = trace w1 @ (t1 @ t2)" by simp
  moreover from n1 n2 have "\<forall>f. l = Function f \<longrightarrow> Called f \<notin> set (t1 @ t2)" by auto
  ultimately have "\<exists>t. trace w3 = trace w1 @ t \<and> (\<forall>f. l = Function f \<longrightarrow> Called f \<notin> set t)"
    by blast
  with assms show ?thesis by (simp add: quiet_def)
qed

lemma clean_trace: "clean l base (w\<lparr>trace := t\<rparr>) = clean l base w"
  by (simp add: clean_def)

lemma clean_state: "clean l base (w\<lparr>state := s, trace := t\<rparr>) = clean l base w"
  by (simp add: clean_def)

lemma quiet_dispatched:
  "clean l base w \<Longrightarrow> quiet l base w (w\<lparr>trace := trace w @ [Dispatched a]\<rparr>)"
  by (simp add: quiet_def clean_def)

lemma quiet_assign:
  "clean l base w \<Longrightarrow> quiet l base w (w\<lparr>state := s, trace := trace w @ [Dispatched a]\<rparr>)"
  by (simp add: quiet_def clean_def)

lemma quiet_called:
  "clean l base w \<Longrightarrow> Function g \<noteq> l \<Longrightarrow> quiet l base w (w\<lparr>trace := trace w @ [Called g]\<rparr>)"
  by (auto simp: quiet_def clean_def)

lemma quiet_subscribe:
  "clean l base w \<Longrightarrow> l' \<noteq> l \<Longrightarrow> quiet l base w (snd (subscribe l' w))"
  by (auto simp: quiet_def clean_def subscribe_def)

lemma quiet_call_handle:
  "clean l base w \<Longrightarrow> quiet l base w (call_handle h w)"
  by (cases h) (auto simp: quiet_def clean_def)

lemma quiet_run:
  assumes envs: "\<And>g. never_subscribes l (env g)"
  shows
    "(\<forall>a w p r w'. clean l base w \<longrightarrow> dispatch n env a w = Some (p, r, w') \<longrightarrow> quiet l base w w') \<and>
     (\<forall>obj k len w p r w'. clean l base w \<longrightarrow> base \<le> obj \<longrightarrow> obj < fresh w \<longrightarrow>
        forEach n env obj k len w = Some (p, r, w') \<longrightarrow> quiet l base w w') \<and>
     (\<forall>p w r w'. clean l base w \<longrightarrow> never_subscribes l p \<longrightarrow>
        exec n env p w = Some (r, w') \<longrightarrow> quiet l base w w')"
proof (induction n)
  case 0
  show ?case by simp
next
  case (Suc n)
  have D: "\<And>a w p r w'. clean l base w \<Longrightarrow> dispatch n env a w = Some (p, r, w') \<Longrightarrow>
             quiet l base w w'"
    and F: "\<And>obj k len w p r w'. clean l base w \<Longrightarrow> base \<le> obj \<Longrightarrow> obj < fresh w \<Longrightarrow>
             forEach n env obj k len w = Some (p, r, w') \<Longrightarrow> quiet l base w w'"
    and E: "\<And>p w r w'. clean l base w \<Longrightarrow> never_subscribes l p \<Longrightarrow>
             exec n env p w = Some (r, w') \<Longrightarrow> quiet l base w w'"
    using Suc by blast+
  have d: "quiet l base w w'"
    if c: "clean l base w" and run: "dispatch (Suc n) env a w = Some (p, r, w')" for a w p r w'
  proof (cases "reducer w (state w) a")
    case (Inl e)
    with run quiet_dispatched [OF c] show ?thesis by auto
  next
    case (Inr s)
    let ?w1 = "w\<lparr>state := s, trace := trace w @ [Dispatched a]\<rparr>"
    from run Inr obtain p1 r1 where
      f: "forEach n env (listeners w) 0 (length (arrays w (listeners w))) ?w1 = Some (p1, r1, w')"
      by (auto simp: Let_def split: option.splits sum.splits)
    have 1: "quiet l base w ?w1" using c by (rule quiet_assign)
    then have c1: "clean l base ?w1" by (simp add: quiet_def)
    from c have "base \<le> listeners w" "listeners w < fresh ?w1" by (simp_all add: clean_def)
    from F [OF c1 this f] have "quiet l base ?w1 w'" .
    with 1 show ?thesis by (rule quiet_trans)
  qed
  have f: "quiet l base w w'"
    if c: "clean l base w" and lo: "base \<le> obj" and hi: "obj < fresh w"
      and run: "forEach (Suc n) env obj k len w = Some (p, r, w')" for obj k len w p r w'
  proof (cases "k < len")
    case False
    with run quiet_refl [OF c] show ?thesis by auto
  next
    case True
    show ?thesis
    proof (cases "k < length (arrays w obj)")
      case False
      with run True F [OF c lo hi] show ?thesis by auto
    next
      case inb: True
      show ?thesis
      proof (cases "arrays w obj ! k")
        case (NotCallable v)
        with run True inb quiet_refl [OF c] show ?thesis by auto
      next
        case (Function g)
        let ?w0 = "w\<lparr>trace := trace w @ [Called g]\<rparr>"
        from inb Function have "Function g \<in> set (arrays w obj)"
          by (metis nth_mem)
        with c lo hi have ne: "Function g \<noteq> l" by (auto simp: clean_def)
        from c ne have 0: "quiet l base w ?w0" by (rule quiet_called)
        then have c0: "clean l base ?w0" by (simp add: quiet_def)
        from run True inb Function obtain r1 w1 where
          e: "exec n env (env g) ?w0 = Some (r1, w1)"
          by (auto split: option.splits)
        from E [OF c0 envs e] have q1: "quiet l base ?w0 w1" .
        with 0 have 1: "quiet l base w w1" by (rule quiet_trans)
        show ?thesis
        proof (cases r1)
          case (Inl e1)
          with run True inb Function e have "w' = w1" by auto
          with 1 show ?thesis by simp
        next
          case (Inr u)
          with run True inb Function e obtain p2 r2 where
            f2: "forEach n env obj (Suc k) len w1 = Some (p2, r2, w')"
            by (auto split: option.splits)
          from 1 have c1: "clean l base w1" and "fresh w \<le> fresh w1" by (simp_all add: quiet_def)
          with hi have "obj < fresh w1" by simp
          from F [OF c1 lo this f2] have "quiet l base w1 w'" .
          with 1 show ?thesis by (rule quiet_trans)
        qed
      qed
    qed
  qed
  have e: "quiet l base w w'"
    if c: "clean l base w" and ns: "never_subscribes l p"
      and run: "exec (Suc n) env p w = Some (r, w')" for p w r w'
  proof (cases p)
    case Return
    with run quiet_refl [OF c] show ?thesis by auto
  next
    case (Throw x)
    with run quiet_refl [OF c] show ?thesis by auto
  next
    case (GetState k)
    with ns have "never_subscribes l (k (getState w))" by simp
    with run GetState E [OF c] show ?thesis by auto
  next
    case (Dispatch a q)
    with run obtain p1 r1 w1 where d1: "dispatch n env a w = Some (p1, r1, w1)"
      by (auto split: option.splits)
    from D [OF c d1] have 1: "quiet l base w w1" .
    show ?thesis
    proof (cases r1)
      case (Inl e1)
      with run Dispatch d1 have "w' = w1" by auto
      with 1 show ?thesis by simp
    next
      case (Inr u)
      with run Dispatch d1 have x: "exec n env q w1 = Some (r, w')" by auto
      from 1 have c1: "clean l base w1" by (simp add: quiet_def)
      from ns Dispatch have "never_subscribes l q" by simp
      from 1 E [OF c1 this x] show ?thesis by (rule quiet_trans)
    qed
  next
    case (Subscribe l' q)
    with ns have ne: "l' \<noteq> l" and nq: "never_subscribes l q" by simp_all
    from run Subscribe have x: "exec n env q (snd (subscribe l' w)) = Some (r, w')" by auto
    from c ne have 1: "quiet l base w (snd (subscribe l' w))" by (rule quiet_subscribe)
    then have "clean l base (snd (subscribe l' w))" by (simp add: quiet_def)
    from 1 E [OF this nq x] show ?thesis by (rule quiet_trans)
  next
    case (CallHandle h q)
    with ns have nq: "never_subscribes l q" by simp
    from run CallHandle have x: "exec n env q (call_handle h w) = Some (r, w')" by auto
    from c have 1: "quiet l base w (call_handle h w)" by (rule quiet_call_handle)
    then have "clean l base (call_handle h w)" by (simp add: quiet_def)
    from 1 E [OF this nq x] show ?thesis by (rule quiet_trans)
  qed
  from d f e show ?case by blast
qed

lemma clean_after_call_handle:
  "wf_store w \<Longrightarrow> clean l (fresh w) (call_handle (Handle l) w)"
  by (auto simp: clean_def wf_store_def)

lemma registered_twice:
  "registered (snd (subscribe l (snd (subscribe l w)))) = registered w @ [l, l]"
  by (simp add: registered_def subscribe_def)

text \<open>
  Claim C6. After the same listener has been subscribed twice, one call of either of the
  two handles leaves no registration of that listener: its reference is not in the array
  of listeners, the notification pass of a dispatch on that store does not call it, and
  no code that runs on that store afterwards calls it, however many dispatches it makes,
  as long as nothing subscribes that listener again.
\<close>

theorem unsubscribe_removes_every_registration:
  assumes "wf_store w"
    and "w2 = snd (subscribe l (snd (subscribe l w)))"
    and "h = fst (subscribe l w) \<or> h = fst (subscribe l (snd (subscribe l w)))"
  shows "registered w2 = registered w @ [l, l] \<and>
         l \<notin> set (registered (call_handle h w2)) \<and>
         (dispatch n env a (call_handle h w2) = Some (pass, r, w') \<longrightarrow> l \<notin> set pass) \<and>
         ((\<forall>g. never_subscribes l (env g)) \<and> never_subscribes l p \<and>
          exec m env p (call_handle h w2) = Some (out, w'') \<longrightarrow>
            (\<forall>f. l = Function f \<longrightarrow> Called f \<notin> set (events_since (call_handle h w2) w'')))"
proof -
  from assms(3) have h: "h = Handle l" by (auto simp: subscribe_def)
  let ?w3 = "call_handle h w2"
  from assms(1,2) have wf2: "wf_store w2" by (simp add: wf_store_def subscribe_def)
  have reg: "l \<notin> set (registered ?w3)" unfolding h registered_call_handle by simp
  have wf3: "wf_store ?w3" by (simp add: h wf_store_def)
  have 1: "l \<notin> set pass" if "dispatch n env a ?w3 = Some (pass, r, w')"
  proof -
    from dispatch_pass [OF wf3 that] have "set pass \<subseteq> set (registered ?w3)"
      by (auto dest: set_mono_prefix)
    with reg show ?thesis by blast
  qed
  have 2: "Called f \<notin> set (events_since ?w3 w'')"
    if envs: "\<forall>g. never_subscribes l (env g)" and ns: "never_subscribes l p"
      and run: "exec m env p ?w3 = Some (out, w'')" and f: "l = Function f" for f
  proof -
    from wf2 have "clean l (fresh w2) ?w3" unfolding h by (rule clean_after_call_handle)
    with quiet_run [of l env "fresh w2" m] envs ns run have "quiet l (fresh w2) ?w3 w''"
      by blast
    with f show ?thesis by (auto simp: quiet_def events_since_def)
  qed
  from assms(2) registered_twice reg 1 2 show ?thesis by blast
qed

theorem unsubscribe_removes_every_registration_witness:
  "registered twice_store = [Function 0, Function 0] \<and>
   registered (call_handle (Handle (Function 0)) twice_store) = [] \<and>
   (\<exists>w'. exec (Suc (Suc (Suc (Suc 0)))) script_env (Dispatch unknown_action Return)
            (call_handle (Handle (Function 0)) twice_store) = Some (Inr (), w') \<and>
          Called 0 \<notin> set (events_since (call_handle (Handle (Function 0)) twice_store) w'))"
proof -
  let ?w3 = "call_handle (Handle (Function 0)) twice_store"
  have wf: "wf_store (createStore app)" by (simp add: wf_store_def createStore_def)
  have tw: "twice_store = snd (subscribe (Function 0) (snd (subscribe (Function 0) (createStore app))))"
    by (simp add: twice_store_def)
  have h: "Handle (Function 0) = fst (subscribe (Function 0) (createStore app)) \<or>
           Handle (Function 0) =
             fst (subscribe (Function 0) (snd (subscribe (Function 0) (createStore app))))"
    by (simp add: subscribe_def)
  have r2: "registered twice_store = [Function 0, Function 0]"
    by (simp add: twice_store_def subscribe_def createStore_def registered_def)
  have r3: "registered ?w3 = []"
    by (simp add: twice_store_def subscribe_def createStore_def registered_def)
  have envs: "\<forall>g. never_subscribes (Function 0) (script_env g)"
    by (simp add: script_env_def)
  have ns: "never_subscribes (Function 0) (Dispatch unknown_action Return)" by simp
  have "map_option fst (exec (Suc (Suc (Suc (Suc 0)))) script_env (Dispatch unknown_action Return) ?w3) =
          Some (Inr ())"
    by (simp add: twice_store_def subscribe_def createStore_def
        app_def app_calls_def todos_def goals_def unknown_action_def)
  then obtain w' where
    e: "exec (Suc (Suc (Suc (Suc 0)))) script_env (Dispatch unknown_action Return) ?w3 =
          Some (Inr (), w')"
    by auto
  from unsubscribe_removes_every_registration [OF wf tw h,
      of _ script_env _ _ _ _ "Dispatch unknown_action Return" "Suc (Suc (Suc (Suc 0)))" "Inr ()" w']
    envs ns e
  have "Called 0 \<notin> set (events_since ?w3 w')" by blast
  with r2 r3 e show ?thesis by blast
qed

end
